theory Spec2Isabelle
  imports Main "HOL-Library.Sublist"
begin

section \<open>Python values and library functions used by odqa\_preprocessors.py\<close>

text \<open>
  The module \<^verbatim>\<open>deeppavlov/models/preprocessors/odqa_preprocessors.py\<close> defines two
  components, \<^verbatim>\<open>DocumentChunker\<close> and \<^verbatim>\<open>StringMultiplier\<close>. Both are pure functions
  of their arguments and of the configuration stored by the constructor.

  A Python \<^verbatim>\<open>str\<close> is modelled as a \<^typ>\<open>string\<close>, one \<^typ>\<open>char\<close> per code point
  (code points 0 to 255). An exception that ends a call is a value \<open>Inl e\<close> of the
  result type, a normal return is \<open>Inr v\<close>.
\<close>

datatype py_error = IndexError | ValueError

text \<open>
  The values held by \<^verbatim>\<open>result\<close> in \<^verbatim>\<open>DocumentChunker.__call__\<close> are strings and
  (nested) lists; the flatten step inspects their dynamic type with \<^verbatim>\<open>isinstance\<close>,
  so they are modelled as dynamically typed values.
\<close>

datatype pyval = PStr string | PList "pyval list"

text \<open>\<^verbatim>\<open>str.isspace\<close> on one code point below 256.\<close>

definition isspace :: "char \<Rightarrow> bool" where
  "isspace c =
     (let n = (of_char c :: nat)
      in (9 \<le> n \<and> n \<le> 13) \<or> (28 \<le> n \<and> n \<le> 32) \<or> n = 133 \<or> n = 160)"

text \<open>
  \<^verbatim>\<open>s.split()\<close> with no argument: the maximal runs of non-whitespace characters, in
  order; leading and trailing whitespace yields no empty token.
\<close>

function py_split :: "string \<Rightarrow> string list" where
  "py_split [] = []"
| "py_split (c # cs) =
     (if isspace c then py_split cs
      else (c # takeWhile (\<lambda>x. \<not> isspace x) cs) # py_split (dropWhile (\<lambda>x. \<not> isspace x) cs))"
  by pat_completeness auto
termination
  by (relation "measure length") (auto simp: less_Suc_eq_le length_dropWhile_le)

text \<open>
  \<^verbatim>\<open>s.split(sep)\<close> for a separator string: the pieces between the non-overlapping
  occurrences of \<open>sep\<close>, found from left to right; \<open>cur\<close> is the piece being read.
  Python raises ValueError for an empty separator; the only call of the module passes
  the constant two-character separator, and here an empty separator never matches.
\<close>

function split_sep :: "string \<Rightarrow> string \<Rightarrow> string \<Rightarrow> string list" where
  "split_sep sep cur [] = [cur]"
| "split_sep sep cur (c # cs) =
     (if sep \<noteq> [] \<and> take (length sep) (c # cs) = sep
      then cur # split_sep sep [] (drop (length sep) (c # cs))
      else split_sep sep (cur @ [c]) cs)"
  by pat_completeness auto
termination
  by (relation "measure (\<lambda>(sep, cur, s). length s)") auto

definition py_split_sep :: "string \<Rightarrow> string \<Rightarrow> string list" where
  "py_split_sep s sep = split_sep sep [] s"

text \<open>\<^verbatim>\<open>s.strip()\<close>: leading and trailing whitespace removed.\<close>

definition py_strip :: "string \<Rightarrow> string" where
  "py_strip s = rev (dropWhile isspace (rev (dropWhile isspace s)))"

text \<open>\<^verbatim>\<open>sep.join(xs)\<close>.\<close>

fun py_join :: "string \<Rightarrow> string list \<Rightarrow> string" where
  "py_join sep [] = []"
| "py_join sep [x] = x"
| "py_join sep (x # y # ys) = x @ sep @ py_join sep (y # ys)"

section \<open>StringMultiplier\<close>

text \<open>
  \<^verbatim>\<open>
    res = []
    for s, r in zip(batch_s, ref):
        res.append([s] * len(r))
    return res
  \<close>
  \<^verbatim>\<open>zip\<close> stops at the end of the shorter argument. No statement of the body raises
  on a batch of strings and a batch of sequences, so the call always returns.
\<close>

fun multiply_loop :: "(string \<times> 'r list) list \<Rightarrow> string list list \<Rightarrow> string list list" where
  "multiply_loop [] res = res"
| "multiply_loop ((s, r) # ps) res = multiply_loop ps (res @ [replicate (length r) s])"

definition StringMultiplier_call :: "string list \<Rightarrow> 'r list list \<Rightarrow> py_error + string list list" where
  "StringMultiplier_call batch_s ref = Inr (multiply_loop (zip batch_s ref) [])"

section \<open>DocumentChunker\<close>

subsection \<open>Construction\<close>

text \<open>
  \<^verbatim>\<open>__init__\<close> stores its five arguments; the first one in the attribute
  \<^verbatim>\<open>_sentencize_fn\<close>.
\<close>

record chunker =
  sentencize_fn :: "string \<Rightarrow> string list"
  keep_sentences :: bool
  tokens_limit :: int
  flatten_result :: bool
  paragraphs :: bool

definition DocumentChunker_init ::
  "(string \<Rightarrow> string list) \<Rightarrow> bool \<Rightarrow> int \<Rightarrow> bool \<Rightarrow> bool \<Rightarrow> chunker" where
  "DocumentChunker_init sentencize keep limit flatten paras =
     \<lparr>sentencize_fn = sentencize, keep_sentences = keep, tokens_limit = limit,
      flatten_result = flatten, paragraphs = paras\<rparr>"

text \<open>
  An element of \<^verbatim>\<open>batch_docs\<close> is a string or a list of strings
  (\<^verbatim>\<open>Union[str, List[str]]\<close>); a bare string becomes a one-element list
  (\<^verbatim>\<open>if isinstance(docs, str): docs = [docs]\<close>).
\<close>

datatype docs = Doc string | Docs "string list"

fun docs_list :: "docs \<Rightarrow> string list" where
  "docs_list (Doc s) = [s]"
| "docs_list (Docs ds) = ds"

subsection \<open>Paragraph mode\<close>

text \<open>
  \<^verbatim>\<open>
    split_doc = doc.split('\n\n')
    split_doc = [sd.strip() for sd in split_doc]
    split_doc = list(filter(lambda x: len(x) > 40, split_doc))
  \<close>
\<close>

definition paragraph_chunks :: "string \<Rightarrow> string list" where
  "paragraph_chunks doc =
     (let split_doc = py_split_sep doc [CHR 0x0A, CHR 0x0A];
          split_doc = map py_strip split_doc;
          split_doc = filter (\<lambda>x. length x > 40) split_doc
      in split_doc)"

subsection \<open>Sentence-preserving mode\<close>

text \<open>
  \<^verbatim>\<open>
    n_tokens = 0
    keep = []
    for s in sentences:
        n_tokens += len(s.split())
        if n_tokens > self.tokens_limit:
            if keep:
                doc_chunks.append(' '.join(keep))
                n_tokens = 0
                keep.clear()
        keep.append(s)
    if keep:
        doc_chunks.append(' '.join(keep))
  \<close>
  The loop as a recursion over the sentences still to read, with the three variables
  it updates; the last equation is the statement after the loop.
\<close>

fun keep_loop :: "int \<Rightarrow> string list \<Rightarrow> string list \<Rightarrow> int \<Rightarrow> string list \<Rightarrow> string list" where
  "keep_loop limit [] doc_chunks n_tokens keep =
     (if keep \<noteq> [] then doc_chunks @ [py_join '' '' keep] else doc_chunks)"
| "keep_loop limit (s # sentences) doc_chunks n_tokens keep =
     (let n_tokens = n_tokens + int (length (py_split s))
      in if n_tokens > limit
         then (if keep \<noteq> []
               then keep_loop limit sentences (doc_chunks @ [py_join '' '' keep]) 0 ([] @ [s])
               else keep_loop limit sentences doc_chunks n_tokens (keep @ [s]))
         else keep_loop limit sentences doc_chunks n_tokens (keep @ [s]))"

text \<open>
  The same loop with the groups themselves recorded where the code records their join:
  the lists \<^verbatim>\<open>keep\<close> holds at each flush.
\<close>

fun keep_groups ::
  "int \<Rightarrow> string list \<Rightarrow> string list list \<Rightarrow> int \<Rightarrow> string list \<Rightarrow> string list list" where
  "keep_groups limit [] groups n_tokens keep =
     (if keep \<noteq> [] then groups @ [keep] else groups)"
| "keep_groups limit (s # sentences) groups n_tokens keep =
     (let n_tokens = n_tokens + int (length (py_split s))
      in if n_tokens > limit
         then (if keep \<noteq> []
               then keep_groups limit sentences (groups @ [keep]) 0 ([] @ [s])
               else keep_groups limit sentences groups n_tokens (keep @ [s]))
         else keep_groups limit sentences groups n_tokens (keep @ [s]))"

text \<open>
  \<^verbatim>\<open>sentences = sent_tokenize(doc)\<close>: the sentences come from the function
  \<^verbatim>\<open>sent_tokenize\<close> that the module imports from nltk, a parameter of the model.
\<close>

definition sentence_chunks :: "(string \<Rightarrow> string list) \<Rightarrow> int \<Rightarrow> string \<Rightarrow> string list" where
  "sentence_chunks sent_tokenize limit doc =
     (let sentences = sent_tokenize doc in keep_loop limit sentences [] 0 [])"

definition sentence_groups :: "int \<Rightarrow> string list \<Rightarrow> string list list" where
  "sentence_groups limit sentences = keep_groups limit sentences [] 0 []"

text \<open>The number of whitespace-delimited tokens of a text, \<^verbatim>\<open>len(s.split())\<close>.\<close>

definition word_count :: "string \<Rightarrow> int" where
  "word_count s = int (length (py_split s))"

text \<open>
  The accumulation as the specification describes it, one step for each sentence on
  the triple of the chunks flushed so far, the running counter and the current group:
  the sentence's token count is added to the counter; when the counter exceeds the limit
  and the group is not empty, the group is flushed as one chunk joined with single
  spaces, the counter is reset to zero and the sentence starts the next group;
  otherwise the sentence joins the group. At the end a non-empty group is flushed.
\<close>

definition spec_step ::
  "int \<Rightarrow> string list \<times> int \<times> string list \<Rightarrow> string \<Rightarrow> string list \<times> int \<times> string list" where
  "spec_step limit state s =
     (case state of (chunks, counter, grp) \<Rightarrow>
        let counter = counter + word_count s
        in if counter > limit \<and> grp \<noteq> []
           then (chunks @ [py_join '' '' grp], 0, [s])
           else (chunks, counter, grp @ [s]))"

definition spec_accumulate :: "int \<Rightarrow> string list \<Rightarrow> string list" where
  "spec_accumulate limit sentences =
     (case foldl (spec_step limit) ([], 0, []) sentences of
        (chunks, counter, grp) \<Rightarrow>
          if grp \<noteq> [] then chunks @ [py_join '' '' grp] else chunks)"

subsection \<open>Token-window mode\<close>

text \<open>
  \<^verbatim>\<open>range(start, stop, step)\<close> as a list; a zero step raises ValueError.
\<close>

definition py_range :: "int \<Rightarrow> int \<Rightarrow> int \<Rightarrow> py_error + int list" where
  "py_range start stop step =
     (if step = 0 then Inl ValueError
      else if step > 0
      then Inr (map (\<lambda>k. start + int k * step) [0 ..< nat ((stop - start + step - 1) div step)])
      else Inr (map (\<lambda>k. start + int k * step) [0 ..< nat ((start - stop - step - 1) div (- step))]))"

text \<open>
  The slice \<^verbatim>\<open>xs[i:j]\<close>: a negative bound counts from the end, and both bounds are
  clamped to the list.
\<close>

definition py_slice :: "'a list \<Rightarrow> int \<Rightarrow> int \<Rightarrow> 'a list" where
  "py_slice xs i j =
     (let n = int (length xs);
          lo = (if i < 0 then max (i + n) 0 else min i n);
          hi = (if j < 0 then max (j + n) 0 else min j n)
      in take (nat (hi - lo)) (drop (nat lo) xs))"

text \<open>
  \<^verbatim>\<open>
    split_doc = doc.split()
    doc_chunks = [split_doc[i:i + self.tokens_limit] for i in
                  range(0, len(split_doc), self.tokens_limit)]
  \<close>
\<close>

definition window_chunks :: "int \<Rightarrow> string \<Rightarrow> py_error + string list list" where
  "window_chunks limit doc =
     (let split_doc = py_split doc
      in case py_range 0 (int (length split_doc)) limit of
           Inl e \<Rightarrow> Inl e
         | Inr starts \<Rightarrow> Inr (map (\<lambda>i. py_slice split_doc i (i + limit)) starts))"

subsection \<open>The call\<close>

text \<open>
  A \<^verbatim>\<open>for\<close> loop that appends one value for each item, and ends at the first
  exception.
\<close>

fun for_append :: "('a \<Rightarrow> py_error + 'b) \<Rightarrow> 'a list \<Rightarrow> 'b list \<Rightarrow> py_error + 'b list" where
  "for_append f [] acc = Inr acc"
| "for_append f (x # xs) acc =
     (case f x of Inl e \<Rightarrow> Inl e | Inr y \<Rightarrow> for_append f xs (acc @ [y]))"

text \<open>
  The body of \<^verbatim>\<open>for doc in docs\<close>: the list of chunks that is appended to
  \<^verbatim>\<open>batch_chunks\<close> for one document. A chunk is a string in the paragraph and
  sentence modes and a list of token strings in the window mode.
\<close>

definition doc_chunks :: "(string \<Rightarrow> string list) \<Rightarrow> chunker \<Rightarrow> string \<Rightarrow> py_error + pyval list" where
  "doc_chunks sent_tokenize self doc =
     (if paragraphs self then Inr (map PStr (paragraph_chunks doc))
      else if keep_sentences self
      then Inr (map PStr (sentence_chunks sent_tokenize (tokens_limit self) doc))
      else (case window_chunks (tokens_limit self) doc of
              Inl e \<Rightarrow> Inl e
            | Inr windows \<Rightarrow> Inr (map (\<lambda>w. PList (map PStr w)) windows)))"

text \<open>The body of \<^verbatim>\<open>for docs in batch_docs\<close>: the chunk lists of one batch element.\<close>

definition element_chunks ::
  "(string \<Rightarrow> string list) \<Rightarrow> chunker \<Rightarrow> docs \<Rightarrow> py_error + pyval list list" where
  "element_chunks sent_tokenize self docs =
     for_append (doc_chunks sent_tokenize self) (docs_list docs) []"

text \<open>
  Lines 64 to 98: \<^verbatim>\<open>result\<close> after the outer loop, one list \<^verbatim>\<open>batch_chunks\<close> of
  chunk lists for each batch element.
\<close>

definition chunk_batch ::
  "(string \<Rightarrow> string list) \<Rightarrow> chunker \<Rightarrow> docs list \<Rightarrow> py_error + pyval list" where
  "chunk_batch sent_tokenize self batch_docs =
     for_append
       (\<lambda>docs. case element_chunks sent_tokenize self docs of
                  Inl e \<Rightarrow> Inl e
                | Inr batch_chunks \<Rightarrow> Inr (PList (map PList batch_chunks)))
       batch_docs []"

text \<open>
  Indexing \<^verbatim>\<open>v[i]\<close> for \<open>i \<ge> 0\<close>, the type test \<^verbatim>\<open>isinstance(v, list)\<close>, the items
  that iterating over a value yields (the characters of a string, the elements of a
  list), and \<^verbatim>\<open>list(chain.from_iterable(v))\<close>.
\<close>

fun py_getitem :: "pyval \<Rightarrow> nat \<Rightarrow> py_error + pyval" where
  "py_getitem (PList xs) i = (if i < length xs then Inr (xs ! i) else Inl IndexError)"
| "py_getitem (PStr s) i = (if i < length s then Inr (PStr [s ! i]) else Inl IndexError)"

fun isinstance_list :: "pyval \<Rightarrow> bool" where
  "isinstance_list (PList xs) = True"
| "isinstance_list (PStr s) = False"

fun py_iter :: "pyval \<Rightarrow> pyval list" where
  "py_iter (PList xs) = xs"
| "py_iter (PStr s) = map (\<lambda>c. PStr [c]) s"

definition chain_from_iterable :: "pyval \<Rightarrow> pyval list" where
  "chain_from_iterable v = concat (map py_iter (py_iter v))"

text \<open>
  \<^verbatim>\<open>
    if isinstance(result[0][0], list):
        for i in range(len(result)):
            flattened = list(chain.from_iterable(result[i]))
            result[i] = flattened
  \<close>
  The test \<open>flatten_check\<close> raises IndexError when \<^verbatim>\<open>result\<close> or \<^verbatim>\<open>result[0]\<close> is
  empty.
\<close>

definition flatten_check :: "pyval list \<Rightarrow> py_error + bool" where
  "flatten_check result =
     (case py_getitem (PList result) 0 of
        Inl e \<Rightarrow> Inl e
      | Inr r0 \<Rightarrow> (case py_getitem r0 0 of
                    Inl e \<Rightarrow> Inl e
                  | Inr r00 \<Rightarrow> Inr (isinstance_list r00)))"

definition flatten_step :: "pyval list \<Rightarrow> py_error + pyval list" where
  "flatten_step result =
     (case flatten_check result of
        Inl e \<Rightarrow> Inl e
      | Inr is_nested \<Rightarrow>
          if is_nested then Inr (map (\<lambda>r. PList (chain_from_iterable r)) result)
          else Inr result)"

definition DocumentChunker_call ::
  "(string \<Rightarrow> string list) \<Rightarrow> chunker \<Rightarrow> docs list \<Rightarrow> py_error + pyval list" where
  "DocumentChunker_call sent_tokenize self batch_docs =
     (case chunk_batch sent_tokenize self batch_docs of
        Inl e \<Rightarrow> Inl e
      | Inr result \<Rightarrow> if flatten_result self then flatten_step result else Inr result)"

text \<open>
  The output entry that belongs to one batch element, as a function of that element
  and of the configuration alone: its chunk lists, nested or concatenated.
\<close>

definition element_output ::
  "(string \<Rightarrow> string list) \<Rightarrow> chunker \<Rightarrow> docs \<Rightarrow> py_error + pyval" where
  "element_output sent_tokenize self docs =
     (case element_chunks sent_tokenize self docs of
        Inl e \<Rightarrow> Inl e
      | Inr batch_chunks \<Rightarrow>
          Inr (PList (if flatten_result self then concat batch_chunks
                      else map PList batch_chunks)))"

section \<open>Properties of StringMultiplier\<close>

lemma multiply_loop_eq:
  "multiply_loop ps res = res @ map (\<lambda>(s, r). replicate (length r) s) ps"
  by (induction ps arbitrary: res) auto

lemma StringMultiplier_call_eq:
  "StringMultiplier_call batch_s ref =
     Inr (map (\<lambda>(s, r). replicate (length r) s) (zip batch_s ref))"
  by (simp add: StringMultiplier_call_def multiply_loop_eq)

text \<open>
  Claim C7. When \<open>batch_s\<close> and \<open>ref\<close> have equal length, the call returns a sequence of
  that same length whose entry \<open>i\<close> is the list holding \<open>batch_s[i]\<close> repeated
  \<open>len(ref[i])\<close> times; where \<open>ref[i]\<close> is empty the entry is the empty list.
\<close>

theorem C7_multiply_equal_length:
  assumes "length batch_s = length ref"
  shows "\<exists>res. StringMultiplier_call batch_s ref = Inr res
           \<and> length res = length batch_s
           \<and> (\<forall>i < length batch_s.
                 res ! i = replicate (length (ref ! i)) (batch_s ! i)
               \<and> length (res ! i) = length (ref ! i)
               \<and> (\<forall>x \<in> set (res ! i). x = batch_s ! i)
               \<and> (ref ! i = [] \<longrightarrow> res ! i = []))"
  using assms by (simp add: StringMultiplier_call_eq)

theorem C7_multiply_equal_length_witness:
  "length [''x'', ''y'', ''z''] = length [[1, 2, 3], [1], [] :: nat list]
   \<and> StringMultiplier_call [''x'', ''y'', ''z''] [[1, 2, 3], [1], [] :: nat list]
       = Inr [[''x'', ''x'', ''x''], [''y''], []]"
  using C7_multiply_equal_length [of "[''x'', ''y'', ''z'']" "[[1, 2, 3], [1], [] :: nat list]"]
  by (simp add: StringMultiplier_call_eq)

text \<open>
  Claim C2, as the code has it. When \<open>batch_s\<close> and \<open>ref\<close> differ in length the call
  does not fail: it returns the entries for the positions both have, so the result has
  the length of the shorter argument.
\<close>

theorem C2_multiply_truncates:
  "\<exists>res. StringMultiplier_call batch_s ref = Inr res
         \<and> length res = min (length batch_s) (length ref)
         \<and> (\<forall>i < length res. res ! i = replicate (length (ref ! i)) (batch_s ! i))"
  by (simp add: StringMultiplier_call_eq)

theorem C2_multiply_truncates_witness:
  "StringMultiplier_call [''x'', ''y''] [[1 :: nat]] = Inr [[''x'']]
   \<and> length [[''x'']] = min (length [''x'', ''y'']) (length [[1 :: nat]])"
  using C2_multiply_truncates [of "[''x'', ''y'']" "[[1 :: nat]]"]
  by (simp add: StringMultiplier_call_eq)

text \<open>
  The claim as the specification words it (a failure whenever the lengths differ) is
  false: two strings against one reference return normally.
\<close>

theorem C2_multiply_no_failure_counterexample:
  "length [''x'', ''y''] \<noteq> length [[1 :: nat]]
   \<and> \<not> isl (StringMultiplier_call [''x'', ''y''] [[1 :: nat]])
   \<and> StringMultiplier_call [''x'', ''y''] [[1 :: nat]] = Inr [[''x'']]"
  by (simp add: StringMultiplier_call_def)

section \<open>Whitespace tokens and joined sentences\<close>

lemma isspace_space: "isspace CHR '' ''"
  by (simp add: isspace_def)

lemma takeWhile_append_stop:
  "\<not> P x \<Longrightarrow> takeWhile P (xs @ x # ys) = takeWhile P xs"
  by (induction xs) auto

lemma dropWhile_append_stop:
  "\<not> P x \<Longrightarrow> dropWhile P (xs @ x # ys) = dropWhile P xs @ x # ys"
  by (induction xs) auto

lemma py_split_append_space:
  "py_split (a @ CHR '' '' # b) = py_split a @ py_split b"
proof (induction a rule: py_split.induct)
  case 1
  show ?case by (simp add: isspace_space)
next
  case (2 c cs)
  show ?case
  proof (cases "isspace c")
    case True
    with 2 show ?thesis by simp
  next
    case False
    with 2 show ?thesis
      by (simp add: takeWhile_append_stop dropWhile_append_stop isspace_space)
  qed
qed

lemma py_split_join:
  "py_split (py_join '' '' xs) = concat (map py_split xs)"
proof (induction xs)
  case Nil
  show ?case by simp
next
  case (Cons x xs)
  then show ?case
    by (cases xs) (simp_all add: py_split_append_space)
qed

lemma word_count_join:
  "word_count (py_join '' '' xs) = (\<Sum>x\<leftarrow>xs. word_count x)"
  by (induction xs) (simp_all add: word_count_def py_split_join)

lemma keep_loop_groups:
  "keep_loop limit ss (map (py_join '' '') gs) n keep
     = map (py_join '' '') (keep_groups limit ss gs n keep)"
proof (induction ss arbitrary: gs n keep)
  case Nil
  show ?case by simp
next
  case (Cons s ss)
  have flush: "keep_loop limit ss (map (py_join '' '') gs @ [py_join '' '' keep]) 0 [s]
                 = map (py_join '' '') (keep_groups limit ss (gs @ [keep]) 0 [s])"
    using Cons.IH [of "gs @ [keep]" 0 "[s]"] by simp
  show ?case by (simp add: Let_def flush Cons.IH)
qed

lemma keep_groups_concat:
  "concat (keep_groups limit ss gs n keep) = concat gs @ keep @ ss"
  by (induction ss arbitrary: gs n keep) (simp_all add: Let_def)

lemma keep_groups_nonempty:
  "[] \<notin> set gs \<Longrightarrow> [] \<notin> set (keep_groups limit ss gs n keep)"
  by (induction ss arbitrary: gs n keep) (simp_all add: Let_def)

section \<open>The token budget of sentence-preserving mode\<close>

lemma word_count_nonneg: "0 \<le> word_count s"
  by (simp add: word_count_def)

lemma keep_groups_budget:
  assumes "0 \<le> limit" and "0 \<le> n"
    and "\<forall>g \<in> set gs. (\<Sum>x\<leftarrow>tl g. word_count x) \<le> limit"
    and "keep = [] \<or> tl keep = [] \<or> ((\<Sum>x\<leftarrow>tl keep. word_count x) \<le> n \<and> n \<le> limit)"
  shows "\<forall>g \<in> set (keep_groups limit ss gs n keep). (\<Sum>x\<leftarrow>tl g. word_count x) \<le> limit"
  using assms
proof (induction ss arbitrary: gs n keep)
  case Nil
  then show ?case by auto
next
  case (Cons s ss)
  let ?n = "n + int (length (py_split s))"
  have n': "0 \<le> ?n" using Cons.prems(2) by simp
  have wc: "word_count s = int (length (py_split s))" by (simp add: word_count_def)
  have keep_ok: "(\<Sum>x\<leftarrow>tl keep. word_count x) \<le> limit"
    using Cons.prems(1,4) by auto
  show ?case
  proof (cases "?n > limit")
    case over: True
    show ?thesis
    proof (cases "keep = []")
      case True
      have "\<forall>g \<in> set (keep_groups limit ss gs ?n (keep @ [s])). (\<Sum>x\<leftarrow>tl g. word_count x) \<le> limit"
        using Cons.prems(1,3) n' True by (intro Cons.IH) auto
      with over True show ?thesis by (simp add: Let_def)
    next
      case False
      have "\<forall>g \<in> set (keep_groups limit ss (gs @ [keep]) 0 [s]). (\<Sum>x\<leftarrow>tl g. word_count x) \<le> limit"
        using Cons.prems(1,3) keep_ok by (intro Cons.IH) auto
      with over False show ?thesis by (simp add: Let_def)
    qed
  next
    case under: False
    have "keep @ [s] = [] \<or> tl (keep @ [s]) = [] \<or>
            ((\<Sum>x\<leftarrow>tl (keep @ [s]). word_count x) \<le> ?n \<and> ?n \<le> limit)"
    proof (cases keep)
      case Nil
      then show ?thesis by simp
    next
      case (Cons k ks)
      then show ?thesis using Cons.prems(2,4) under wc by (cases ks) auto
    qed
    then have "\<forall>g \<in> set (keep_groups limit ss gs ?n (keep @ [s])). (\<Sum>x\<leftarrow>tl g. word_count x) \<le> limit"
      using Cons.prems(1,3) n' by (intro Cons.IH) auto
    with under show ?thesis by (simp add: Let_def)
  qed
qed

lemma sentence_groups_budget:
  assumes "0 \<le> limit" and "g \<in> set (sentence_groups limit ss)"
  shows "g \<noteq> [] \<and> word_count (py_join '' '' g) \<le> limit + word_count (hd g)"
proof -
  have ne: "g \<noteq> []"
    using keep_groups_nonempty [of "[]" limit ss 0 "[]"] assms(2)
    by (auto simp: sentence_groups_def)
  have "\<forall>g \<in> set (keep_groups limit ss [] 0 []). (\<Sum>x\<leftarrow>tl g. word_count x) \<le> limit"
    using assms(1) by (intro keep_groups_budget) auto
  with assms(2) have "(\<Sum>x\<leftarrow>tl g. word_count x) \<le> limit"
    by (simp add: sentence_groups_def)
  moreover have "word_count (py_join '' '' g) = word_count (hd g) + (\<Sum>x\<leftarrow>tl g. word_count x)"
    using ne by (cases g) (simp_all add: word_count_join)
  ultimately show ?thesis using ne by simp
qed

lemma doc_chunks_sentence_mode:
  assumes "\<not> paragraphs self" and "keep_sentences self"
  shows "doc_chunks st self doc = Inr (map PStr (sentence_chunks st (tokens_limit self) doc))"
  using assms by (simp add: doc_chunks_def)

lemma sentence_chunks_groups:
  "sentence_chunks st limit doc = map (py_join '' '') (sentence_groups limit (st doc))"
  using keep_loop_groups [of limit "st doc" "[]" 0 "[]"]
  by (simp add: sentence_chunks_def sentence_groups_def)

text \<open>
  Claim C3. In sentence-preserving mode with \<open>tokens_limit \<ge> 1\<close>, every chunk of a
  document is the join of one group of whole sentences, and its word count is at most
  \<open>tokens_limit\<close> plus the word count of the first sentence of its group.
\<close>

theorem C3_sentence_budget:
  assumes "\<not> paragraphs self" and "keep_sentences self" and "1 \<le> tokens_limit self"
  shows "doc_chunks st self doc = Inr (map PStr (sentence_chunks st (tokens_limit self) doc))
       \<and> sentence_chunks st (tokens_limit self) doc
           = map (py_join '' '') (sentence_groups (tokens_limit self) (st doc))
       \<and> concat (sentence_groups (tokens_limit self) (st doc)) = st doc
       \<and> (\<forall>i < length (sentence_chunks st (tokens_limit self) doc).
             sentence_groups (tokens_limit self) (st doc) ! i \<noteq> []
           \<and> word_count (sentence_chunks st (tokens_limit self) doc ! i)
               \<le> tokens_limit self
                  + word_count (hd (sentence_groups (tokens_limit self) (st doc) ! i)))"
proof -
  let ?limit = "tokens_limit self"
  have d: "doc_chunks st self doc = Inr (map PStr (sentence_chunks st ?limit doc))"
    using assms(1,2) by (rule doc_chunks_sentence_mode)
  have c: "sentence_chunks st ?limit doc = map (py_join '' '') (sentence_groups ?limit (st doc))"
    by (rule sentence_chunks_groups)
  have cc: "concat (sentence_groups ?limit (st doc)) = st doc"
    by (simp add: sentence_groups_def keep_groups_concat)
  have "sentence_groups ?limit (st doc) ! i \<noteq> []
      \<and> word_count (sentence_chunks st ?limit doc ! i)
          \<le> ?limit + word_count (hd (sentence_groups ?limit (st doc) ! i))"
    if "i < length (sentence_chunks st ?limit doc)" for i
  proof -
    from that have i: "i < length (sentence_groups ?limit (st doc))" by (simp add: c)
    then have "sentence_groups ?limit (st doc) ! i \<in> set (sentence_groups ?limit (st doc))"
      by simp
    from sentence_groups_budget [OF _ this] assms(3) i show ?thesis by (simp add: c)
  qed
  with d c cc show ?thesis by blast
qed

theorem C3_sentence_budget_witness:
  "\<not> paragraphs (DocumentChunker_init (\<lambda>d. [d]) True 3 False False)
   \<and> keep_sentences (DocumentChunker_init (\<lambda>d. [d]) True 3 False False)
   \<and> 1 \<le> tokens_limit (DocumentChunker_init (\<lambda>d. [d]) True 3 False False)
   \<and> doc_chunks (\<lambda>d. [''a'', ''b c d e'', ''f g'', ''h i''])
        (DocumentChunker_init (\<lambda>d. [d]) True 3 False False) ''doc''
       = Inr [PStr ''a'', PStr ''b c d e f g'', PStr ''h i'']
   \<and> sentence_groups 3 [''a'', ''b c d e'', ''f g'', ''h i'']
       = [[''a''], [''b c d e'', ''f g''], [''h i'']]
   \<and> word_count ''b c d e f g'' \<le> 3 + word_count ''b c d e''"
  using C3_sentence_budget [of "DocumentChunker_init (\<lambda>d. [d]) True 3 False False"
      "\<lambda>d. [''a'', ''b c d e'', ''f g'', ''h i'']" "''doc''"]
  by (simp add: DocumentChunker_init_def sentence_chunks_def sentence_groups_def
        word_count_def isspace_def)

section \<open>The greedy accumulation\<close>

lemma keep_loop_spec:
  "keep_loop limit ss chunks n keep =
     (case foldl (spec_step limit) (chunks, n, keep) ss of
        (chunks', counter, grp) \<Rightarrow>
          if grp \<noteq> [] then chunks' @ [py_join '' '' grp] else chunks')"
  by (induction ss arbitrary: chunks n keep)
     (auto simp: spec_step_def word_count_def Let_def)

lemma keep_groups_prefix:
  "keep_groups limit ss gs n keep = gs @ keep_groups limit ss [] n keep"
proof (induction ss arbitrary: gs n keep)
  case Nil
  show ?case by simp
next
  case (Cons s ss)
  have "keep_groups limit ss (gs @ [keep]) 0 [s] = gs @ keep_groups limit ss [keep] 0 [s]"
    using Cons.IH [of "gs @ [keep]" 0 "[s]"] Cons.IH [of "[keep]" 0 "[s]"] by simp
  then show ?case using Cons.IH [of gs] by (simp add: Let_def)
qed

lemma keep_groups_oversized_first:
  assumes "limit < n"
  shows "\<exists>more. keep_groups limit ss [] n [s] = [s] # more"
proof (cases ss)
  case Nil
  then show ?thesis by simp
next
  case (Cons t ts)
  have "limit < n + int (length (py_split t))" using assms by simp
  then have "keep_groups limit ss [] n [s] = keep_groups limit ts [[s]] 0 [t]"
    using Cons by (simp add: Let_def)
  also have "\<dots> = [s] # keep_groups limit ts [] 0 [t]"
    using keep_groups_prefix [of limit ts "[[s]]" 0 "[t]"] by simp
  finally show ?thesis by blast
qed

lemma sentence_groups_oversized_first:
  assumes "limit < word_count s"
  shows "\<exists>more. sentence_groups limit (s # rest) = [s] # more"
  using assms keep_groups_oversized_first [of limit "word_count s" rest s]
  by (simp add: sentence_groups_def word_count_def Let_def)

text \<open>
  Claim C4, as the code has it. The chunks of a document are those of the accumulation
  the specification describes (counter increased before the sentence is appended, flush
  of a non-empty group when the counter exceeds the limit, counter reset to zero, the
  overflowing sentence carried into the next group, final flush of what remains). No
  sentence is split or lost: the chunks are the joins of non-empty groups whose
  concatenation is the sentence list. When the first sentence of the document alone
  exceeds the limit, it is a chunk of its own.
\<close>

theorem C4_accumulation:
  "(\<not> paragraphs self \<and> keep_sentences self \<longrightarrow>
      doc_chunks st self doc = Inr (map PStr (sentence_chunks st (tokens_limit self) doc)))
   \<and> sentence_chunks st limit doc = spec_accumulate limit (st doc)
   \<and> sentence_chunks st limit doc = map (py_join '' '') (sentence_groups limit (st doc))
   \<and> concat (sentence_groups limit (st doc)) = st doc
   \<and> [] \<notin> set (sentence_groups limit (st doc))
   \<and> (\<forall>s rest. st doc = s # rest \<and> limit < word_count s \<longrightarrow>
         (\<exists>more. sentence_groups limit (st doc) = [s] # more
               \<and> sentence_chunks st limit doc = s # map (py_join '' '') more))"
proof -
  have m: "\<not> paragraphs self \<and> keep_sentences self \<longrightarrow>
      doc_chunks st self doc = Inr (map PStr (sentence_chunks st (tokens_limit self) doc))"
    using doc_chunks_sentence_mode by blast
  have a: "sentence_chunks st limit doc = spec_accumulate limit (st doc)"
    by (simp add: sentence_chunks_def spec_accumulate_def keep_loop_spec)
  have b: "sentence_chunks st limit doc = map (py_join '' '') (sentence_groups limit (st doc))"
    by (rule sentence_chunks_groups)
  have c: "concat (sentence_groups limit (st doc)) = st doc"
    by (simp add: sentence_groups_def keep_groups_concat)
  have d: "[] \<notin> set (sentence_groups limit (st doc))"
    using keep_groups_nonempty [of "[]" limit "st doc" 0 "[]"] by (simp add: sentence_groups_def)
  have e: "\<exists>more. sentence_groups limit (st doc) = [s] # more
               \<and> sentence_chunks st limit doc = s # map (py_join '' '') more"
    if "st doc = s # rest" and "limit < word_count s" for s rest
  proof -
    from sentence_groups_oversized_first [OF that(2), of rest] that(1)
    obtain more where "sentence_groups limit (st doc) = [s] # more" by auto
    then show ?thesis using b by simp
  qed
  from m a b c d e show ?thesis by blast
qed

theorem C4_accumulation_witness:
  "doc_chunks (\<lambda>d. [''a b c d'', ''e'', ''f''])
        (DocumentChunker_init (\<lambda>d. [d]) True 3 False False) ''doc''
       = Inr [PStr ''a b c d'', PStr ''e f'']
   \<and> spec_accumulate 3 [''a b c d'', ''e'', ''f''] = [''a b c d'', ''e f'']
   \<and> sentence_groups 3 [''a b c d'', ''e'', ''f''] = [[''a b c d''], [''e'', ''f'']]
   \<and> 3 < word_count ''a b c d''"
  using C4_accumulation [of "DocumentChunker_init (\<lambda>d. [d]) True 3 False False"
      "\<lambda>d. [''a b c d'', ''e'', ''f'']" "''doc''" 3]
  by (simp add: DocumentChunker_init_def sentence_chunks_def sentence_groups_def
        spec_accumulate_def spec_step_def word_count_def isspace_def)

text \<open>
  The claim as the specification words it also says that any sentence above the limit is
  emitted alone. A sentence carried over by a flush starts the next group with the
  counter at zero, so later sentences still join it: with limit 3 the four-token
  sentence \<open>b c d e\<close> shares its chunk with \<open>f\<close>.
\<close>

theorem C4_oversized_not_alone_counterexample:
  "sentence_chunks (\<lambda>d. [''a'', ''b c d e'', ''f'']) 3 ''doc'' = [''a'', ''b c d e f'']
   \<and> 3 < word_count ''b c d e''
   \<and> ''b c d e'' \<notin> set (sentence_chunks (\<lambda>d. [''a'', ''b c d e'', ''f'']) 3 ''doc'')"
  by (simp add: sentence_chunks_def word_count_def isspace_def)

section \<open>Paragraph mode\<close>

lemma split_sep_nonempty: "split_sep sep cur s \<noteq> []"
  by (induction sep cur s rule: split_sep.induct) auto

lemma py_join_Cons: "xs \<noteq> [] \<Longrightarrow> py_join sep (x # xs) = x @ sep @ py_join sep xs"
  by (cases xs) simp_all

lemma py_join_split_sep: "py_join sep (split_sep sep cur s) = cur @ s"
proof (induction sep cur s rule: split_sep.induct)
  case (1 sep cur)
  show ?case by simp
next
  case (2 sep cur c cs)
  show ?case
  proof (cases "sep \<noteq> [] \<and> take (length sep) (c # cs) = sep")
    case True
    then have "py_join sep (split_sep sep cur (c # cs))
                 = cur @ sep @ py_join sep (split_sep sep [] (drop (length sep) (c # cs)))"
      by (simp add: py_join_Cons split_sep_nonempty del: take_Suc_Cons drop_Suc_Cons)
    also have "\<dots> = cur @ take (length sep) (c # cs) @ drop (length sep) (c # cs)"
      using 2(1) True by simp
    finally show ?thesis by (simp del: take_Suc_Cons drop_Suc_Cons)
  next
    case False
    then show ?thesis using 2(2) by auto
  qed
qed

lemma paragraph_chunks_eq:
  "paragraph_chunks doc =
     filter (\<lambda>p. \<not> length p \<le> 40) (map py_strip (py_split_sep doc [CHR 0x0A, CHR 0x0A]))"
  by (simp add: paragraph_chunks_def Let_def not_le)

lemma py_strip_decomp:
  "\<exists>a b. s = a @ py_strip s @ b \<and> list_all isspace a \<and> list_all isspace b"
proof -
  let ?t = "dropWhile isspace s"
  have 1: "s = takeWhile isspace s @ ?t" by simp
  have "py_strip s @ rev (takeWhile isspace (rev ?t))
          = rev (takeWhile isspace (rev ?t) @ dropWhile isspace (rev ?t))"
    by (simp only: py_strip_def rev_append)
  also have "\<dots> = rev (rev ?t)" by (simp only: takeWhile_dropWhile_id)
  finally have 2: "?t = py_strip s @ rev (takeWhile isspace (rev ?t))" by simp
  have 3: "list_all isspace (takeWhile isspace s)"
    by (simp add: list_all_iff) (meson set_takeWhileD)
  have 4: "list_all isspace (rev (takeWhile isspace (rev ?t)))"
    by (simp add: list_all_iff) (meson set_takeWhileD)
  from 1 2 have "s = takeWhile isspace s @ py_strip s @ rev (takeWhile isspace (rev ?t))"
    by simp
  with 3 4 show ?thesis by blast
qed

lemma py_strip_ends:
  "py_strip s = [] \<or> (\<not> isspace (hd (py_strip s)) \<and> \<not> isspace (last (py_strip s)))"
proof (cases "py_strip s = []")
  case True
  then show ?thesis by simp
next
  case False
  let ?t = "dropWhile isspace s"
  let ?u = "dropWhile isspace (rev ?t)"
  from False have u: "?u \<noteq> []" by (simp add: py_strip_def)
  then have hu: "\<not> isspace (hd ?u)" by (rule hd_dropWhile)
  have "?u = []" if "?t = []" unfolding that by simp
  with u have t: "?t \<noteq> []" by blast
  then have ht: "\<not> isspace (hd ?t)" by (rule hd_dropWhile)
  have "last (py_strip s) = hd ?u" using u by (simp add: py_strip_def last_rev)
  moreover have "hd (py_strip s) = last ?u" using u by (simp add: py_strip_def hd_rev)
  moreover have "last ?u = last (rev ?t)"
    using u by (metis append_is_Nil_conv last_appendR takeWhile_dropWhile_id)
  moreover have "last (rev ?t) = hd ?t" using t by (simp add: last_rev)
  ultimately show ?thesis using hu ht by simp
qed

lemma paragraph_example:
  "paragraph_chunks (''Short.'' @ [CHR 0x0A, CHR 0x0A]
       @ ''This is a long enough paragraph to survive the forty character filter easily.'')
     = [''This is a long enough paragraph to survive the forty character filter easily.'']"
  by (simp add: paragraph_chunks_def py_split_sep_def py_strip_def isspace_def)

lemma short_not_sublist:
  "length ys < length xs \<Longrightarrow> \<not> sublist xs ys"
  using sublist_length_le [of xs ys] by auto

lemma take_pred_short:
  "xs \<noteq> [] \<Longrightarrow> length (take (length xs - 1) ys) < length xs"
  by (cases xs) (simp_all add: min_def)

lemma sublist_butlast_step:
  assumes "length t = length sep" and "t \<noteq> sep" and "sep \<noteq> []"
    and "\<not> sublist sep (cur @ butlast t)"
  shows "\<not> sublist sep (cur @ t)"
proof
  assume "sublist sep (cur @ t)"
  then obtain ps ss where e: "cur @ t = ps @ sep @ ss" by (auto simp: sublist_def)
  show False
  proof (cases "ss = []")
    case True
    with e have "cur @ t = ps @ sep" by simp
    with assms(1) have "t = sep" by (simp add: append_eq_append_conv)
    with assms(2) show False by simp
  next
    case False
    from assms(1,3) have t: "t \<noteq> []" by auto
    have "cur @ butlast t = butlast (cur @ t)" using t by (simp add: butlast_append)
    also have "\<dots> = butlast (ps @ sep @ ss)" by (simp only: e)
    also have "\<dots> = ps @ sep @ butlast ss" using False by (simp add: butlast_append)
    finally have "sublist sep (cur @ butlast t)" by (simp only: sublist_appendI)
    with assms(4) show False by simp
  qed
qed

lemma split_sep_pieces:
  assumes "sep \<noteq> []" and "\<not> sublist sep (cur @ take (length sep - 1) s)"
  shows "(\<forall>p \<in> set (butlast (split_sep sep cur s)). \<not> sublist sep (p @ butlast sep))
       \<and> \<not> sublist sep (last (split_sep sep cur s))"
  using assms
proof (induction sep cur s rule: split_sep.induct)
  case (1 sep cur)
  then show ?case by simp
next
  case (2 sep cur c cs)
  let ?n = "length sep"
  show ?case
  proof (cases "take ?n (c # cs) = sep")
    case True
    let ?R = "split_sep sep [] (drop ?n (c # cs))"
    have split: "split_sep sep cur (c # cs) = cur # ?R"
      using True "2.prems"(1) by (simp del: take_Suc_Cons drop_Suc_Cons)
    have R: "?R \<noteq> []" by (rule split_sep_nonempty)
    have "length (take ?n (c # cs)) = ?n" by (simp only: True)
    then have le: "?n \<le> length (c # cs)" by (simp del: take_Suc_Cons)
    have "take (?n - 1) (c # cs) = butlast (take ?n (c # cs))"
      using le by (simp only: butlast_take)
    then have "take (?n - 1) (c # cs) = butlast sep" by (simp only: True)
    with "2.prems"(2) have cur: "\<not> sublist sep (cur @ butlast sep)" by simp
    have "length (take (?n - 1) (drop ?n (c # cs))) < ?n"
      using "2.prems"(1) by (rule take_pred_short)
    then have "\<not> sublist sep (take (?n - 1) (drop ?n (c # cs)))"
      by (rule short_not_sublist)
    then have "\<not> sublist sep ([] @ take (?n - 1) (drop ?n (c # cs)))"
      by simp
    with "2.IH"(1) True "2.prems"(1)
    have ih: "(\<forall>p \<in> set (butlast ?R). \<not> sublist sep (p @ butlast sep))
       \<and> \<not> sublist sep (last ?R)" by blast
    from split R cur ih show ?thesis by simp
  next
    case False
    have split: "split_sep sep cur (c # cs) = split_sep sep (cur @ [c]) cs"
      using False by (simp del: take_Suc_Cons)
    obtain m where m: "?n = Suc m" using "2.prems"(1) by (cases sep) auto
    have w: "\<not> sublist sep ((cur @ [c]) @ take (?n - 1) cs)"
    proof (cases "length (c # cs) < ?n")
      case True
      then have "take (?n - 1) (c # cs) = c # cs" and "take (?n - 1) cs = cs"
        by (simp_all add: m)
      with "2.prems"(2) show ?thesis by simp
    next
      case ge: False
      let ?t = "take ?n (c # cs)"
      have len: "length ?t = ?n" using ge by (simp del: take_Suc_Cons)
      have "take (?n - 1) (c # cs) = butlast ?t"
        using ge by (simp only: butlast_take not_less)
      with "2.prems"(2) have "\<not> sublist sep (cur @ butlast ?t)" by simp
      from sublist_butlast_step [OF len False "2.prems"(1) this]
      have "\<not> sublist sep (cur @ ?t)" .
      moreover have "cur @ ?t = (cur @ [c]) @ take (?n - 1) cs" by (simp add: m)
      ultimately show ?thesis by simp
    qed
    from "2.IH"(2) False "2.prems"(1) w
    have "(\<forall>p \<in> set (butlast (split_sep sep (cur @ [c]) cs)). \<not> sublist sep (p @ butlast sep))
       \<and> \<not> sublist sep (last (split_sep sep (cur @ [c]) cs))" by blast
    then show ?thesis unfolding split .
  qed
qed

lemma py_split_sep_pieces:
  assumes "sep \<noteq> []"
  shows "py_join sep (py_split_sep s sep) = s"
    and "\<forall>p \<in> set (butlast (py_split_sep s sep)). \<not> sublist sep (p @ butlast sep)"
    and "\<not> sublist sep (last (py_split_sep s sep))"
proof -
  show "py_join sep (py_split_sep s sep) = s"
    by (simp add: py_split_sep_def py_join_split_sep)
  have "length (take (length sep - 1) s) < length sep" using assms by (rule take_pred_short)
  then have "\<not> sublist sep (take (length sep - 1) s)" by (rule short_not_sublist)
  then have "\<not> sublist sep ([] @ take (length sep - 1) s)" by simp
  from split_sep_pieces [OF assms this]
  show "\<forall>p \<in> set (butlast (py_split_sep s sep)). \<not> sublist sep (p @ butlast sep)"
    and "\<not> sublist sep (last (py_split_sep s sep))"
    by (simp_all add: py_split_sep_def)
qed

lemma paragraph_padded_example:
  "paragraph_chunks (''  Short.  '' @ [CHR 0x0A, CHR 0x0A, CHR 0x0A]
       @ ''  This is a long enough paragraph to survive the forty character filter easily.''
       @ [CHR 0x09, CHR 0x0A, CHR 0x0A] @ '' x'')
     = [''This is a long enough paragraph to survive the forty character filter easily.'']"
  by (simp add: paragraph_chunks_def py_split_sep_def py_strip_def isspace_def)

text \<open>
  Claim C5. In paragraph mode the chunks of a document are its pieces between the
  double-newline delimiters, each stripped of surrounding whitespace, without the pieces
  of stripped length at most 40, in their order. The pieces are those of the leftmost
  non-overlapping split: joined with the delimiter they give the document back, a piece
  that a delimiter follows holds no earlier start of a delimiter, and the last piece
  holds no delimiter. Stripping removes whitespace only and leaves a string that
  neither starts nor ends with whitespace. Every chunk is longer than 40 characters.
  The example document yields its second paragraph only, also when its paragraphs are
  padded with whitespace and three newlines separate them.
\<close>

theorem C5_paragraph_mode:
  assumes "paragraphs self"
  shows "doc_chunks st self doc = Inr (map PStr (paragraph_chunks doc))
       \<and> paragraph_chunks doc =
           filter (\<lambda>p. \<not> length p \<le> 40) (map py_strip (py_split_sep doc [CHR 0x0A, CHR 0x0A]))
       \<and> py_join [CHR 0x0A, CHR 0x0A] (py_split_sep doc [CHR 0x0A, CHR 0x0A]) = doc
       \<and> (\<forall>p \<in> set (butlast (py_split_sep doc [CHR 0x0A, CHR 0x0A])).
             \<not> sublist [CHR 0x0A, CHR 0x0A] (p @ [CHR 0x0A]))
       \<and> \<not> sublist [CHR 0x0A, CHR 0x0A] (last (py_split_sep doc [CHR 0x0A, CHR 0x0A]))
       \<and> (\<forall>p. (\<exists>a b. p = a @ py_strip p @ b \<and> list_all isspace a \<and> list_all isspace b)
              \<and> (py_strip p = []
                  \<or> (\<not> isspace (hd (py_strip p)) \<and> \<not> isspace (last (py_strip p)))))
       \<and> (\<forall>c \<in> set (paragraph_chunks doc). 40 < length c)
       \<and> paragraph_chunks (''Short.'' @ [CHR 0x0A, CHR 0x0A]
            @ ''This is a long enough paragraph to survive the forty character filter easily.'')
           = [''This is a long enough paragraph to survive the forty character filter easily.'']
       \<and> paragraph_chunks (''  Short.  '' @ [CHR 0x0A, CHR 0x0A, CHR 0x0A]
            @ ''  This is a long enough paragraph to survive the forty character filter easily.''
            @ [CHR 0x09, CHR 0x0A, CHR 0x0A] @ '' x'')
           = [''This is a long enough paragraph to survive the forty character filter easily.'']"
proof -
  let ?nn = "[CHR 0x0A, CHR 0x0A]"
  have nn: "?nn \<noteq> []" by simp
  have a: "doc_chunks st self doc = Inr (map PStr (paragraph_chunks doc))"
    using assms by (simp add: doc_chunks_def)
  have b: "py_join ?nn (py_split_sep doc ?nn) = doc"
    by (rule py_split_sep_pieces(1) [OF nn])
  have c: "\<forall>p \<in> set (butlast (py_split_sep doc ?nn)). \<not> sublist ?nn (p @ [CHR 0x0A])"
    using py_split_sep_pieces(2) [OF nn, of doc] by simp
  have d: "\<not> sublist ?nn (last (py_split_sep doc ?nn))"
    by (rule py_split_sep_pieces(3) [OF nn])
  have e: "\<forall>p. (\<exists>a b. p = a @ py_strip p @ b \<and> list_all isspace a \<and> list_all isspace b)
              \<and> (py_strip p = []
                  \<or> (\<not> isspace (hd (py_strip p)) \<and> \<not> isspace (last (py_strip p))))"
    using py_strip_decomp py_strip_ends by blast
  have f: "\<forall>c \<in> set (paragraph_chunks doc). 40 < length c"
    by (simp add: paragraph_chunks_eq not_le)
  from a paragraph_chunks_eq [of doc] b c d e f paragraph_example paragraph_padded_example
  show ?thesis by (intro conjI)
qed

theorem C5_paragraph_mode_witness:
  "paragraphs (DocumentChunker_init (\<lambda>d. [d]) True 400 False True)
   \<and> doc_chunks (\<lambda>d. [d]) (DocumentChunker_init (\<lambda>d. [d]) True 400 False True)
        (''  Short.  '' @ [CHR 0x0A, CHR 0x0A, CHR 0x0A]
          @ ''  This is a long enough paragraph to survive the forty character filter easily.''
          @ [CHR 0x09, CHR 0x0A, CHR 0x0A] @ '' x'')
       = Inr [PStr ''This is a long enough paragraph to survive the forty character filter easily.'']
   \<and> py_split_sep (''  Short.  '' @ [CHR 0x0A, CHR 0x0A, CHR 0x0A]
          @ ''  This is a long enough paragraph to survive the forty character filter easily.''
          @ [CHR 0x09, CHR 0x0A, CHR 0x0A] @ '' x'') [CHR 0x0A, CHR 0x0A]
       = [''  Short.  '',
          CHR 0x0A # ''  This is a long enough paragraph to survive the forty character filter easily.''
            @ [CHR 0x09],
          '' x'']
   \<and> py_strip (CHR 0x0A # ''  This is a long enough paragraph to survive the forty character filter easily.''
            @ [CHR 0x09])
       = ''This is a long enough paragraph to survive the forty character filter easily.''"
proof -
  let ?self = "DocumentChunker_init (\<lambda>d. [d]) True 400 False True"
  let ?doc = "''  Short.  '' @ [CHR 0x0A, CHR 0x0A, CHR 0x0A]
          @ ''  This is a long enough paragraph to survive the forty character filter easily.''
          @ [CHR 0x09, CHR 0x0A, CHR 0x0A] @ '' x''"
  have p: "paragraphs ?self" by (simp add: DocumentChunker_init_def)
  from C5_paragraph_mode [OF p, of "\<lambda>d. [d]" ?doc]
  have "doc_chunks (\<lambda>d. [d]) ?self ?doc = Inr (map PStr (paragraph_chunks ?doc))"
    by (rule conjunct1)
  then have 1: "doc_chunks (\<lambda>d. [d]) ?self ?doc
      = Inr [PStr ''This is a long enough paragraph to survive the forty character filter easily.'']"
    by (simp only: paragraph_padded_example list.map)
  have 2: "py_split_sep ?doc [CHR 0x0A, CHR 0x0A]
       = [''  Short.  '',
          CHR 0x0A # ''  This is a long enough paragraph to survive the forty character filter easily.''
            @ [CHR 0x09],
          '' x'']"
    by (simp add: py_split_sep_def)
  have 3: "py_strip (CHR 0x0A # ''  This is a long enough paragraph to survive the forty character filter easily.''
            @ [CHR 0x09])
       = ''This is a long enough paragraph to survive the forty character filter easily.''"
    by (simp add: py_strip_def isspace_def)
  from p 1 2 3 show ?thesis by (intro conjI)
qed

section \<open>Token-window mode\<close>

lemma py_slice_window:
  assumes "0 \<le> i" and "0 \<le> w"
  shows "py_slice xs i (i + w) = take (nat w) (drop (nat i) xs)"
proof (cases "i \<le> int (length xs)")
  case True
  with assms have "py_slice xs i (i + w)
      = take (nat (min (i + w) (int (length xs)) - i)) (drop (nat i) xs)"
    by (simp add: py_slice_def Let_def min_def)
  also have "\<dots> = take (nat w) (drop (nat i) xs)"
  proof (cases "i + w \<le> int (length xs)")
    case True
    then show ?thesis by (simp add: min_def)
  next
    case False
    with \<open>i \<le> int (length xs)\<close> assms
    have "nat (min (i + w) (int (length xs)) - i) = length (drop (nat i) xs)"
      and "length (drop (nat i) xs) \<le> nat w"
      by (simp_all add: min_def)
    then show ?thesis by simp
  qed
  finally show ?thesis .
next
  case False
  with assms show ?thesis by (simp add: py_slice_def Let_def min_def)
qed

lemma py_range_from_zero:
  assumes "0 < w"
  shows "py_range 0 (int n) (int w)
           = Inr (map (\<lambda>k. int (k * w)) [0 ..< (n + w - 1) div w])"
proof -
  have "(int n + int w - 1) div int w = int ((n + w - 1) div w)"
    using assms by (simp add: zdiv_int of_nat_diff)
  then have "nat ((int n + int w - 1) div int w) = (n + w - 1) div w"
    by simp
  with assms show ?thesis by (simp add: py_range_def)
qed

lemma window_chunks_eq:
  assumes "0 < w"
  shows "window_chunks (int w) doc
           = Inr (map (\<lambda>k. take w (drop (k * w) (py_split doc)))
                   [0 ..< (length (py_split doc) + w - 1) div w])"
proof -
  have "py_slice xs (int (k * w)) (int (k * w) + int w) = take w (drop (k * w) xs)"
    for xs :: "string list" and k
    using py_slice_window [of "int (k * w)" "int w" xs] by (simp add: nat_mult_distrib)
  then show ?thesis
    using py_range_from_zero [OF assms, of "length (py_split doc)"]
    by (simp add: window_chunks_def Let_def)
qed

lemma concat_windows:
  "concat (map (\<lambda>k. take w (drop (k * w) xs)) [0 ..< m]) = take (m * w) xs"
proof (induction m)
  case 0
  show ?case by simp
next
  case (Suc m)
  have "take (Suc m * w) xs = take (m * w + w) xs" by (simp add: add.commute)
  also have "\<dots> = take (m * w) xs @ take w (drop (m * w) xs)" by (rule take_add)
  finally show ?case using Suc by simp
qed

lemma ceil_div_bounds:
  assumes "0 < (w::nat)"
  shows "n \<le> ((n + w - 1) div w) * w"
    and "0 < n \<Longrightarrow> ((n + w - 1) div w - 1) * w < n"
proof -
  let ?m = "(n + w - 1) div w"
  have 1: "?m * w \<le> n + w - 1" by (rule div_times_less_eq_dividend)
  have 2: "n + w - 1 < ?m * w + w"
    using assms dividend_less_div_times [of w "n + w - 1"] by (simp add: add.commute)
  from 2 assms show "n \<le> ?m * w" by linarith
  show "(?m - 1) * w < n" if "0 < n"
  proof -
    from that assms have "0 < ?m" by (simp add: div_greater_zero_iff)
    then have "(?m - 1) * w + w = ?m * w"
      by (metis Suc_pred' mult_Suc add.commute)
    with 1 assms that show ?thesis by linarith
  qed
qed

lemma window_example:
  "window_chunks 3 ''a b c d e f g''
     = Inr [[''a'', ''b'', ''c''], [''d'', ''e'', ''f''], [''g'']]"
  by (simp add: window_chunks_def py_range_def py_slice_def isspace_def Let_def
        upt_conv_Cons)

lemma window_lengths:
  assumes "0 < (w::nat)" and "i < (n + w - 1) div w"
  shows "i * w < n" and "i + 1 < (n + w - 1) div w \<Longrightarrow> (i + 1) * w < n"
proof -
  let ?m = "(n + w - 1) div w"
  have n: "0 < n"
  proof (rule ccontr)
    assume "\<not> 0 < n"
    then have n0: "n = 0" by simp
    have "w - 1 < w" using assms(1) by simp
    then have "(w - 1) div w = 0" by (rule div_less)
    then have "(n + w - 1) div w = 0" by (simp only: n0 add_0)
    with assms(2) show False by simp
  qed
  have last: "(?m - 1) * w < n" using ceil_div_bounds(2) [OF assms(1) n] .
  from assms(2) have "i \<le> ?m - 1" by simp
  then have "i * w \<le> (?m - 1) * w" by (rule mult_le_mono1)
  then show "i * w < n" using last by (rule le_less_trans)
  show "(i + 1) * w < n" if "i + 1 < ?m"
  proof -
    from that have "i + 1 \<le> ?m - 1" by simp
    then have "(i + 1) * w \<le> (?m - 1) * w" by (rule mult_le_mono1)
    then show ?thesis using last by (rule le_less_trans)
  qed
qed

text \<open>
  Claim C6. In token-window mode with \<open>tokens_limit \<ge> 1\<close> the chunks of a document are
  the consecutive windows of its whitespace-delimited tokens: window \<open>i\<close> starts at token
  \<open>i * tokens_limit\<close>, every window but the last has exactly \<open>tokens_limit\<close> tokens, the
  last has between one and \<open>tokens_limit\<close>, each chunk is the list of the window's
  tokens, and the concatenation of the chunks is the token list. For limit 3 the
  document \<open>a b c d e f g\<close> gives the three windows of the example.
\<close>

theorem C6_window_mode:
  assumes "1 \<le> tokens_limit self" and "\<not> paragraphs self" and "\<not> keep_sentences self"
  shows "\<exists>ws. window_chunks (tokens_limit self) doc = Inr ws
           \<and> doc_chunks st self doc = Inr (map (\<lambda>w. PList (map PStr w)) ws)
           \<and> concat ws = py_split doc
           \<and> (\<forall>i < length ws.
                 ws ! i = take (nat (tokens_limit self))
                            (drop (i * nat (tokens_limit self)) (py_split doc))
               \<and> 1 \<le> length (ws ! i)
               \<and> int (length (ws ! i)) \<le> tokens_limit self
               \<and> (i + 1 < length ws \<longrightarrow> int (length (ws ! i)) = tokens_limit self))
           \<and> window_chunks 3 ''a b c d e f g''
               = Inr [[''a'', ''b'', ''c''], [''d'', ''e'', ''f''], [''g'']]"
proof -
  define w where "w = nat (tokens_limit self)"
  define toks where "toks = py_split doc"
  define m where "m = (length toks + w - 1) div w"
  define ws where "ws = map (\<lambda>k. take w (drop (k * w) toks)) [0 ..< m]"
  have w: "0 < w" and lim: "tokens_limit self = int w"
    using assms(1) by (simp_all add: w_def)
  have 1: "window_chunks (tokens_limit self) doc = Inr ws"
    unfolding lim ws_def m_def toks_def by (rule window_chunks_eq [OF w])
  have 2: "doc_chunks st self doc = Inr (map (\<lambda>w. PList (map PStr w)) ws)"
    using assms(2,3) 1 by (simp add: doc_chunks_def)
  have "concat ws = take (m * w) toks"
    unfolding ws_def by (rule concat_windows)
  moreover have "length toks \<le> m * w"
    unfolding m_def by (rule ceil_div_bounds(1) [OF w])
  ultimately have 3: "concat ws = py_split doc" by (simp add: toks_def)
  have nw: "nat (tokens_limit self) = w" by (simp add: w_def)
  have 4: "ws ! i = take (nat (tokens_limit self))
                      (drop (i * nat (tokens_limit self)) (py_split doc))
         \<and> 1 \<le> length (ws ! i)
         \<and> int (length (ws ! i)) \<le> tokens_limit self
         \<and> (i + 1 < length ws \<longrightarrow> int (length (ws ! i)) = tokens_limit self)"
    if "i < length ws" for i
  proof -
    from that have i: "i < m" by (simp add: ws_def)
    then have e: "ws ! i = take w (drop (i * w) toks)" by (simp add: ws_def)
    have a: "i * w < length toks"
      using window_lengths(1) [OF w, of i "length toks"] i by (simp add: m_def)
    have b: "(i + 1) * w < length toks" if "i + 1 < m"
      using window_lengths(2) [OF w, of i "length toks"] i that by (simp add: m_def)
    have len: "length (ws ! i) = min w (length toks - i * w)" by (simp add: e min.commute)
    have e': "ws ! i = take (nat (tokens_limit self))
                         (drop (i * nat (tokens_limit self)) (py_split doc))"
      using e by (simp only: nw toks_def)
    from a w have l1: "1 \<le> length (ws ! i)" by (simp add: len)
    have "length (ws ! i) \<le> w" by (simp add: len)
    then have l2: "int (length (ws ! i)) \<le> tokens_limit self" by (simp only: lim of_nat_le_iff)
    have l3: "int (length (ws ! i)) = tokens_limit self" if "i + 1 < length ws"
    proof -
      from that have "i + 1 < m" by (simp add: ws_def)
      from b [OF this] have "i * w + w < length toks" by (simp add: add.commute)
      then have "length (ws ! i) = w" by (simp add: len)
      then show ?thesis by (simp only: lim)
    qed
    from e' l1 l2 l3 show ?thesis by blast
  qed
  from 1 2 3 4 window_example show ?thesis by blast
qed

theorem C6_window_mode_witness:
  "1 \<le> tokens_limit (DocumentChunker_init (\<lambda>d. [d]) False 3 False False)
   \<and> \<not> paragraphs (DocumentChunker_init (\<lambda>d. [d]) False 3 False False)
   \<and> \<not> keep_sentences (DocumentChunker_init (\<lambda>d. [d]) False 3 False False)
   \<and> doc_chunks (\<lambda>d. [d]) (DocumentChunker_init (\<lambda>d. [d]) False 3 False False)
        ''a b c d e f g''
       = Inr [PList [PStr ''a'', PStr ''b'', PStr ''c''],
              PList [PStr ''d'', PStr ''e'', PStr ''f''], PList [PStr ''g'']]"
proof -
  let ?self = "DocumentChunker_init (\<lambda>d. [d]) False 3 False False"
  have h: "1 \<le> tokens_limit ?self" "\<not> paragraphs ?self" "\<not> keep_sentences ?self"
    by (simp_all add: DocumentChunker_init_def)
  have l: "tokens_limit ?self = 3" by (simp add: DocumentChunker_init_def)
  from C6_window_mode [OF h, of "''a b c d e f g''" "\<lambda>d. [d]"] obtain ws where
    "window_chunks (tokens_limit ?self) ''a b c d e f g'' = Inr ws"
    and d: "doc_chunks (\<lambda>d. [d]) ?self ''a b c d e f g'' = Inr (map (\<lambda>w. PList (map PStr w)) ws)"
    by blast
  then have "ws = [[''a'', ''b'', ''c''], [''d'', ''e'', ''f''], [''g'']]"
    by (simp only: l window_example sum.inject)
  with d h show ?thesis by simp
qed

section \<open>The loops over the batch\<close>

lemma for_append_Inr_iff:
  "for_append f xs acc = Inr ys \<longleftrightarrow> (\<exists>zs. ys = acc @ zs \<and> list_all2 (\<lambda>x z. f x = Inr z) xs zs)"
proof (induction xs arbitrary: acc)
  case Nil
  show ?case by auto
next
  case (Cons x xs)
  show ?case
  proof (cases "f x")
    case (Inl e)
    then show ?thesis by (auto simp: list_all2_Cons1)
  next
    case (Inr y)
    then show ?thesis by (auto simp: Cons.IH list_all2_Cons1)
  qed
qed

lemma for_append_Inl:
  "for_append f xs acc = Inl e \<Longrightarrow> \<exists>x \<in> set xs. f x = Inl e"
  by (induction xs arbitrary: acc) (auto split: sum.splits)

lemma for_append_total:
  assumes "\<And>x. x \<in> set xs \<Longrightarrow> \<exists>y. f x = Inr y"
  shows "\<exists>ys. for_append f xs acc = Inr ys"
proof (cases "for_append f xs acc")
  case (Inl e)
  from for_append_Inl [OF this] obtain x where "x \<in> set xs" and "f x = Inl e" by blast
  with assms [of x] show ?thesis by simp
next
  case (Inr ys)
  then show ?thesis by blast
qed

lemma for_append_length:
  "for_append f xs [] = Inr ys \<Longrightarrow> length ys = length xs"
  by (auto simp: for_append_Inr_iff dest: list_all2_lengthD)

lemma for_append_nth:
  "for_append f xs [] = Inr ys \<Longrightarrow> i < length xs \<Longrightarrow> f (xs ! i) = Inr (ys ! i)"
  by (auto simp: for_append_Inr_iff dest: list_all2_nthD)

lemma window_chunks_error:
  "window_chunks limit doc = Inl e \<longleftrightarrow> limit = 0 \<and> e = ValueError"
  by (auto simp: window_chunks_def py_range_def Let_def)

lemma doc_chunks_error:
  "doc_chunks st self doc = Inl e \<longleftrightarrow>
     \<not> paragraphs self \<and> \<not> keep_sentences self \<and> tokens_limit self = 0 \<and> e = ValueError"
proof (cases "window_chunks (tokens_limit self) doc")
  case (Inl e')
  then have "tokens_limit self = 0" and "e' = ValueError"
    by (simp_all add: window_chunks_error)
  with Inl show ?thesis by (auto simp: doc_chunks_def)
next
  case (Inr ws)
  have "tokens_limit self \<noteq> 0"
  proof
    assume "tokens_limit self = 0"
    then have "window_chunks (tokens_limit self) doc = Inl ValueError"
      by (simp add: window_chunks_error)
    with Inr show False by simp
  qed
  with Inr show ?thesis by (auto simp: doc_chunks_def)
qed

lemma for_append_wrap:
  "for_append (\<lambda>x. case f x of Inl e \<Rightarrow> Inl e | Inr y \<Rightarrow> Inr (g y)) xs (map g acc)
     = (case for_append f xs acc of Inl e \<Rightarrow> Inl e | Inr ys \<Rightarrow> Inr (map g ys))"
proof (induction xs arbitrary: acc)
  case Nil
  show ?case by simp
next
  case (Cons x xs)
  show ?case
  proof (cases "f x")
    case (Inl e)
    then show ?thesis by simp
  next
    case (Inr y)
    then show ?thesis using Cons.IH [of "acc @ [y]"] by simp
  qed
qed

lemma chunk_batch_eq:
  "chunk_batch st self batch =
     (case for_append (element_chunks st self) batch [] of
        Inl e \<Rightarrow> Inl e
      | Inr css \<Rightarrow> Inr (map (\<lambda>bc. PList (map PList bc)) css))"
  using for_append_wrap [where f = "element_chunks st self"
      and g = "\<lambda>bc. PList (map PList bc)" and xs = batch and acc = "[]"]
  by (simp add: chunk_batch_def)

lemma chain_from_iterable_nested:
  "chain_from_iterable (PList (map PList bc)) = concat bc"
  by (simp add: chain_from_iterable_def comp_def)

lemma flatten_check_nested:
  "flatten_check (map (\<lambda>bc. PList (map PList bc)) css) =
     (if css = [] \<or> hd css = [] then Inl IndexError else Inr True)"
proof (cases css)
  case Nil
  then show ?thesis by (simp add: flatten_check_def)
next
  case (Cons bc rest)
  then show ?thesis by (cases bc) (simp_all add: flatten_check_def)
qed

lemma flatten_step_nested:
  "flatten_step (map (\<lambda>bc. PList (map PList bc)) css) =
     (if css = [] \<or> hd css = [] then Inl IndexError
      else Inr (map (\<lambda>bc. PList (concat bc)) css))"
  by (simp add: flatten_step_def flatten_check_nested chain_from_iterable_nested comp_def)

lemma DocumentChunker_call_eq:
  "DocumentChunker_call st self batch =
     (case for_append (element_chunks st self) batch [] of
        Inl e \<Rightarrow> Inl e
      | Inr css \<Rightarrow>
          if flatten_result self
          then (if css = [] \<or> hd css = [] then Inl IndexError
                else Inr (map (\<lambda>bc. PList (concat bc)) css))
          else Inr (map (\<lambda>bc. PList (map PList bc)) css))"
  by (simp add: DocumentChunker_call_def chunk_batch_eq flatten_step_nested split: sum.splits)

lemma element_chunks_length:
  "element_chunks st self docs = Inr bc \<Longrightarrow> length bc = length (docs_list docs)"
  by (simp add: element_chunks_def for_append_length)

lemma element_chunks_error:
  assumes "element_chunks st self docs = Inl e"
  shows "\<not> paragraphs self \<and> \<not> keep_sentences self \<and> tokens_limit self = 0 \<and> e = ValueError
         \<and> docs_list docs \<noteq> []"
proof -
  from assms obtain doc where "doc \<in> set (docs_list docs)" and "doc_chunks st self doc = Inl e"
    unfolding element_chunks_def by (blast dest: for_append_Inl)
  then show ?thesis by (auto simp: doc_chunks_error)
qed

lemma batch_chunks_error:
  assumes "for_append (element_chunks st self) batch [] = Inl e"
  shows "\<not> paragraphs self \<and> \<not> keep_sentences self \<and> tokens_limit self = 0 \<and> e = ValueError
         \<and> batch \<noteq> []"
proof -
  from for_append_Inl [OF assms] obtain docs
    where "docs \<in> set batch" and "element_chunks st self docs = Inl e" by blast
  then show ?thesis using element_chunks_error [of st self docs e] by auto
qed

lemma batch_chunks_total:
  assumes "paragraphs self \<or> keep_sentences self \<or> tokens_limit self \<noteq> 0"
  shows "\<exists>css. for_append (element_chunks st self) batch [] = Inr css"
proof (cases "for_append (element_chunks st self) batch []")
  case (Inl e)
  from batch_chunks_error [OF this] assms show ?thesis by blast
next
  case (Inr css)
  then show ?thesis by blast
qed

lemma batch_chunks_first:
  assumes "for_append (element_chunks st self) batch [] = Inr css"
  shows "css = [] \<longleftrightarrow> batch = []"
    and "batch \<noteq> [] \<Longrightarrow> hd css = [] \<longleftrightarrow> docs_list (hd batch) = []"
proof -
  have len: "length css = length batch" using assms by (rule for_append_length)
  then show "css = [] \<longleftrightarrow> batch = []" by auto
  show "hd css = [] \<longleftrightarrow> docs_list (hd batch) = []" if "batch \<noteq> []"
  proof -
    from that have 0: "0 < length batch" by simp
    from for_append_nth [OF assms 0] have "element_chunks st self (batch ! 0) = Inr (css ! 0)" .
    then have "length (css ! 0) = length (docs_list (batch ! 0))" by (rule element_chunks_length)
    moreover have "css ! 0 = hd css" using len that by (cases css) auto
    moreover have "batch ! 0 = hd batch" using that by (cases batch) auto
    ultimately show ?thesis by auto
  qed
qed

section \<open>The shape of the output\<close>

lemma call_entries:
  assumes "DocumentChunker_call st self batch = Inr res"
  shows "length res = length batch"
    and "i < length batch \<Longrightarrow> element_output st self (batch ! i) = Inr (res ! i)"
proof -
  from assms obtain css where css: "for_append (element_chunks st self) batch [] = Inr css"
    by (auto simp: DocumentChunker_call_eq split: sum.splits)
  have len: "length css = length batch" using css by (rule for_append_length)
  have res: "res = map (\<lambda>bc. PList (if flatten_result self then concat bc else map PList bc)) css"
    using assms css by (auto simp: DocumentChunker_call_eq split: if_splits)
  from res len show "length res = length batch" by simp
  show "element_output st self (batch ! i) = Inr (res ! i)" if "i < length batch"
  proof -
    from for_append_nth [OF css that] have "element_chunks st self (batch ! i) = Inr (css ! i)" .
    then show ?thesis using that len by (simp add: element_output_def res)
  qed
qed

lemma call_returns:
  assumes "paragraphs self \<or> keep_sentences self \<or> tokens_limit self \<noteq> 0"
    and "\<not> flatten_result self \<or> (batch \<noteq> [] \<and> docs_list (hd batch) \<noteq> [])"
  shows "\<exists>res. DocumentChunker_call st self batch = Inr res"
proof -
  from batch_chunks_total [OF assms(1)] obtain css
    where css: "for_append (element_chunks st self) batch [] = Inr css" by blast
  show ?thesis
  proof (cases "flatten_result self")
    case False
    with css show ?thesis by (simp add: DocumentChunker_call_eq)
  next
    case True
    with assms(2) have "batch \<noteq> []" and "docs_list (hd batch) \<noteq> []" by blast+
    with batch_chunks_first [OF css] have "css \<noteq> []" and "hd css \<noteq> []" by blast+
    with css show ?thesis by (simp add: DocumentChunker_call_eq)
  qed
qed

text \<open>
  Claim C8, as the code has it. Whenever \<^verbatim>\<open>DocumentChunker.__call__\<close> returns, the
  output has the length of the input batch and its entry \<open>i\<close> is \<open>element_output\<close> of
  the batch element \<open>i\<close>, a function of that element and the configuration alone. The
  call returns whenever the mode is not the token-window mode with a zero limit and
  either \<open>flatten_result\<close> is false or the batch starts with an element that holds a
  document. \<^verbatim>\<open>StringMultiplier.__call__\<close> always returns; its output has the length of
  the shorter argument and entry \<open>i\<close> depends on \<open>batch_s[i]\<close> and \<open>ref[i]\<close> alone.
\<close>

theorem C8_batch_shape:
  "(\<forall>res. DocumentChunker_call st self batch = Inr res \<longrightarrow>
       length res = length batch
     \<and> (\<forall>i < length batch. element_output st self (batch ! i) = Inr (res ! i)))
   \<and> ((paragraphs self \<or> keep_sentences self \<or> tokens_limit self \<noteq> 0)
       \<and> (\<not> flatten_result self \<or> (batch \<noteq> [] \<and> docs_list (hd batch) \<noteq> []))
       \<longrightarrow> (\<exists>res. DocumentChunker_call st self batch = Inr res))
   \<and> (\<exists>res. StringMultiplier_call batch_s ref = Inr res
          \<and> length res = min (length batch_s) (length ref)
          \<and> (\<forall>i < length res. res ! i = replicate (length (ref ! i)) (batch_s ! i)))"
proof -
  have a: "\<forall>res. DocumentChunker_call st self batch = Inr res \<longrightarrow>
       length res = length batch
     \<and> (\<forall>i < length batch. element_output st self (batch ! i) = Inr (res ! i))"
    using call_entries by blast
  have b: "(paragraphs self \<or> keep_sentences self \<or> tokens_limit self \<noteq> 0)
       \<and> (\<not> flatten_result self \<or> (batch \<noteq> [] \<and> docs_list (hd batch) \<noteq> []))
       \<longrightarrow> (\<exists>res. DocumentChunker_call st self batch = Inr res)"
    using call_returns by blast
  have c: "\<exists>res. StringMultiplier_call batch_s ref = Inr res
          \<and> length res = min (length batch_s) (length ref)
          \<and> (\<forall>i < length res. res ! i = replicate (length (ref ! i)) (batch_s ! i))"
    by (simp add: StringMultiplier_call_eq)
  from a b c show ?thesis by blast
qed

theorem C8_batch_shape_witness:
  "DocumentChunker_call (\<lambda>d. [d]) (DocumentChunker_init (\<lambda>d. [d]) True 400 True False)
       [Doc ''a b'', Docs [''c'', ''d e'']]
     = Inr [PList [PStr ''a b''], PList [PStr ''c'', PStr ''d e'']]
   \<and> element_output (\<lambda>d. [d]) (DocumentChunker_init (\<lambda>d. [d]) True 400 True False)
       (Docs [''c'', ''d e'']) = Inr (PList [PStr ''c'', PStr ''d e''])
   \<and> StringMultiplier_call [''x'', ''y''] [[1, 2 :: nat], [3]] = Inr [[''x'', ''x''], [''y'']]"
  using C8_batch_shape [of "\<lambda>d. [d]" "DocumentChunker_init (\<lambda>d. [d]) True 400 True False"
      "[Doc ''a b'', Docs [''c'', ''d e'']]" "[''x'', ''y'']" "[[1, 2 :: nat], [3]]"]
  by (simp add: DocumentChunker_call_def chunk_batch_def element_chunks_def element_output_def
        doc_chunks_def DocumentChunker_init_def sentence_chunks_def flatten_step_def
        flatten_check_def chain_from_iterable_def StringMultiplier_call_def isspace_def)

text \<open>
  The claim as the specification words it promises a normal return and an output of the
  input's length for every batch and every configuration. The empty batch with
  \<open>flatten_result\<close> set raises IndexError, the token-window mode with limit 0 raises
  ValueError, and two strings against one reference give one entry.
\<close>

theorem C8_batch_shape_counterexample:
  "DocumentChunker_call (\<lambda>d. [d]) (DocumentChunker_init (\<lambda>d. [d]) True 400 True False) []
     = Inl IndexError
   \<and> DocumentChunker_call (\<lambda>d. [d]) (DocumentChunker_init (\<lambda>d. [d]) False 0 False False)
       [Doc ''a'']
     = Inl ValueError
   \<and> StringMultiplier_call [''x'', ''y''] [[1 :: nat]] = Inr [[''x'']]
   \<and> length [[''x'']] \<noteq> length [''x'', ''y'']"
  by (simp add: DocumentChunker_call_def chunk_batch_def element_chunks_def
        doc_chunks_def DocumentChunker_init_def window_chunks_def py_range_def flatten_step_def
        flatten_check_def StringMultiplier_call_def isspace_def)

section \<open>The flatten step\<close>

lemma for_append_fails:
  assumes "x \<in> set xs" and "f x = Inl e"
  shows "\<exists>e'. for_append f xs acc = Inl e'"
proof (cases "for_append f xs acc")
  case (Inl e')
  then show ?thesis by blast
next
  case (Inr ys)
  then obtain zs where "list_all2 (\<lambda>x z. f x = Inr z) xs zs"
    by (auto simp: for_append_Inr_iff)
  with assms(1) obtain z where "f x = Inr z"
    by (auto simp: list_all2_conv_all_nth in_set_conv_nth)
  with assms(2) show ?thesis by simp
qed

lemma batch_chunks_fails_iff:
  "(\<exists>e. for_append (element_chunks st self) batch [] = Inl e) \<longleftrightarrow>
     \<not> paragraphs self \<and> \<not> keep_sentences self \<and> tokens_limit self = 0
     \<and> (\<exists>docs \<in> set batch. docs_list docs \<noteq> [])"
proof
  assume "\<exists>e. for_append (element_chunks st self) batch [] = Inl e"
  then obtain e where e: "for_append (element_chunks st self) batch [] = Inl e" by blast
  from for_append_Inl [OF e] obtain docs
    where d: "docs \<in> set batch" and f: "element_chunks st self docs = Inl e" by blast
  from element_chunks_error [OF f] d
  show "\<not> paragraphs self \<and> \<not> keep_sentences self \<and> tokens_limit self = 0
     \<and> (\<exists>docs \<in> set batch. docs_list docs \<noteq> [])" by blast
next
  assume a: "\<not> paragraphs self \<and> \<not> keep_sentences self \<and> tokens_limit self = 0
     \<and> (\<exists>docs \<in> set batch. docs_list docs \<noteq> [])"
  then obtain docs where d: "docs \<in> set batch" and ne: "docs_list docs \<noteq> []" by blast
  from ne obtain doc where doc: "doc \<in> set (docs_list docs)" by (cases "docs_list docs") auto
  from a have "doc_chunks st self doc = Inl ValueError" by (simp add: doc_chunks_error)
  from for_append_fails [where f = "doc_chunks st self" and acc = "[]", OF doc this]
  obtain e' where "element_chunks st self docs = Inl e'"
    unfolding element_chunks_def by blast
  from for_append_fails [where f = "element_chunks st self" and acc = "[]", OF d this]
  show "\<exists>e. for_append (element_chunks st self) batch [] = Inl e" by blast
qed

text \<open>
  Claim C9, as the code has it. With \<open>flatten_result\<close> set and a batch that is empty or
  whose first element holds no document, the call never returns a result. It raises
  ValueError exactly when the mode is the token-window mode with limit 0 and some
  element of the batch holds a document: \<^verbatim>\<open>range\<close> then raises inside the loop. In
  every other case the loop completes and the flatten check raises IndexError.
\<close>

theorem C9_flatten_fails:
  assumes "flatten_result self" and "batch = [] \<or> docs_list (hd batch) = []"
  shows "DocumentChunker_call st self batch =
           (if \<not> paragraphs self \<and> \<not> keep_sentences self \<and> tokens_limit self = 0
               \<and> (\<exists>docs \<in> set batch. docs_list docs \<noteq> [])
            then Inl ValueError else Inl IndexError)"
proof (cases "for_append (element_chunks st self) batch []")
  case (Inl e)
  from batch_chunks_error [OF this] have e: "e = ValueError" by blast
  from Inl have "\<not> paragraphs self \<and> \<not> keep_sentences self \<and> tokens_limit self = 0
     \<and> (\<exists>docs \<in> set batch. docs_list docs \<noteq> [])"
    using batch_chunks_fails_iff [of st self batch] by blast
  moreover from Inl e have "DocumentChunker_call st self batch = Inl ValueError"
    by (simp add: DocumentChunker_call_eq)
  ultimately show ?thesis by simp
next
  case (Inr css)
  then have "\<not> (\<not> paragraphs self \<and> \<not> keep_sentences self \<and> tokens_limit self = 0
     \<and> (\<exists>docs \<in> set batch. docs_list docs \<noteq> []))"
    using batch_chunks_fails_iff [of st self batch] by auto
  moreover have "css = [] \<or> hd css = []"
    using batch_chunks_first [OF Inr] assms(2) by blast
  with Inr assms(1) have "DocumentChunker_call st self batch = Inl IndexError"
    by (simp add: DocumentChunker_call_eq)
  ultimately show ?thesis by simp
qed

theorem C9_flatten_fails_witness:
  "flatten_result (DocumentChunker_init (\<lambda>d. [d]) True 400 True False)
   \<and> docs_list (hd [Docs [], Doc ''a b'']) = []
   \<and> DocumentChunker_call (\<lambda>d. [d]) (DocumentChunker_init (\<lambda>d. [d]) True 400 True False)
        [Docs [], Doc ''a b''] = Inl IndexError
   \<and> flatten_result (DocumentChunker_init (\<lambda>d. [d]) False 0 True False)
   \<and> DocumentChunker_call (\<lambda>d. [d]) (DocumentChunker_init (\<lambda>d. [d]) False 0 True False)
        [Docs []] = Inl IndexError
   \<and> DocumentChunker_call (\<lambda>d. [d]) (DocumentChunker_init (\<lambda>d. [d]) False 0 True False)
        [Docs [], Doc ''a''] = Inl ValueError"
  using C9_flatten_fails [of "DocumentChunker_init (\<lambda>d. [d]) True 400 True False"
      "[Docs [], Doc ''a b'']" "\<lambda>d. [d]"]
    C9_flatten_fails [of "DocumentChunker_init (\<lambda>d. [d]) False 0 True False"
      "[Docs []]" "\<lambda>d. [d]"]
    C9_flatten_fails [of "DocumentChunker_init (\<lambda>d. [d]) False 0 True False"
      "[Docs [], Doc ''a'']" "\<lambda>d. [d]"]
  by (simp add: DocumentChunker_init_def)

text \<open>
  The claim as the specification words it names the indexing error for every such batch.
  In token-window mode with limit 0, a first element without documents followed by a
  document raises ValueError inside the loop.
\<close>

theorem C9_value_error_first_counterexample:
  "flatten_result (DocumentChunker_init (\<lambda>d. [d]) False 0 True False)
   \<and> docs_list (hd [Docs [], Doc ''a'']) = []
   \<and> DocumentChunker_call (\<lambda>d. [d]) (DocumentChunker_init (\<lambda>d. [d]) False 0 True False)
        [Docs [], Doc ''a''] = Inl ValueError
   \<and> DocumentChunker_call (\<lambda>d. [d]) (DocumentChunker_init (\<lambda>d. [d]) False 0 True False)
        [Docs [], Doc ''a''] \<noteq> Inl IndexError"
  by (simp add: DocumentChunker_call_def chunk_batch_def element_chunks_def
        doc_chunks_def DocumentChunker_init_def window_chunks_def py_range_def isspace_def)

lemma chunk_batch_entries:
  assumes "chunk_batch st self batch = Inr result"
  shows "\<exists>css. result = map (\<lambda>bc. PList (map PList bc)) css
             \<and> for_append (element_chunks st self) batch [] = Inr css"
  using assms by (auto simp: chunk_batch_eq split: sum.splits)

text \<open>
  Claim C10. Whenever the flatten check returns, for any batch, it returns true: every
  entry of \<^verbatim>\<open>result\<close> is a list of lists in all three modes. With \<open>flatten_result\<close> set
  and a first batch element that holds a document, the check returns true on the result
  of the loop, and the call returns, for each batch element, the concatenation of the
  chunk lists of its documents in order (or raises what the loop raised); the result is
  never left nested.
\<close>

theorem C10_flatten_always_applied:
  assumes "flatten_result self" and "batch \<noteq> []" and "docs_list (hd batch) \<noteq> []"
  shows "(\<forall>b result v. chunk_batch st self b = Inr result \<and> flatten_check result = Inr v \<longrightarrow> v)
       \<and> (\<forall>result. chunk_batch st self batch = Inr result \<longrightarrow>
             flatten_check result = Inr True
           \<and> (\<forall>r \<in> set result. \<exists>bc. r = PList bc \<and> list_all isinstance_list bc))
       \<and> DocumentChunker_call st self batch =
           (case for_append (element_chunks st self) batch [] of
              Inl e \<Rightarrow> Inl e
            | Inr css \<Rightarrow> Inr (map (\<lambda>bc. PList (concat bc)) css))
       \<and> (paragraphs self \<or> keep_sentences self \<or> tokens_limit self \<noteq> 0 \<longrightarrow>
            (\<exists>css. for_append (element_chunks st self) batch [] = Inr css
                 \<and> DocumentChunker_call st self batch = Inr (map (\<lambda>bc. PList (concat bc)) css)))"
proof -
  have a: "v" if "chunk_batch st self b = Inr result" and "flatten_check result = Inr v"
    for b result v
  proof -
    from chunk_batch_entries [OF that(1)] obtain css
      where "result = map (\<lambda>bc. PList (map PList bc)) css" by blast
    with that(2) show ?thesis by (simp add: flatten_check_nested split: if_splits)
  qed
  have b: "flatten_check result = Inr True
           \<and> (\<forall>r \<in> set result. \<exists>bc. r = PList bc \<and> list_all isinstance_list bc)"
    if "chunk_batch st self batch = Inr result" for result
  proof -
    from chunk_batch_entries [OF that] obtain css
      where r: "result = map (\<lambda>bc. PList (map PList bc)) css"
        and css: "for_append (element_chunks st self) batch [] = Inr css" by blast
    from batch_chunks_first [OF css] assms(2,3) have "css \<noteq> []" and "hd css \<noteq> []" by blast+
    then have "flatten_check result = Inr True" by (simp add: r flatten_check_nested)
    moreover have "\<forall>r \<in> set result. \<exists>bc. r = PList bc \<and> list_all isinstance_list bc"
      by (auto simp: r list_all_iff)
    ultimately show ?thesis by blast
  qed
  have c: "DocumentChunker_call st self batch =
           (case for_append (element_chunks st self) batch [] of
              Inl e \<Rightarrow> Inl e
            | Inr css \<Rightarrow> Inr (map (\<lambda>bc. PList (concat bc)) css))"
  proof (cases "for_append (element_chunks st self) batch []")
    case (Inl e)
    then show ?thesis by (simp add: DocumentChunker_call_eq)
  next
    case (Inr css)
    from batch_chunks_first [OF Inr] assms(2,3) have "css \<noteq> []" and "hd css \<noteq> []" by blast+
    with Inr assms(1) show ?thesis by (simp add: DocumentChunker_call_eq)
  qed
  have d: "\<exists>css. for_append (element_chunks st self) batch [] = Inr css
                 \<and> DocumentChunker_call st self batch = Inr (map (\<lambda>bc. PList (concat bc)) css)"
    if "paragraphs self \<or> keep_sentences self \<or> tokens_limit self \<noteq> 0"
  proof -
    from batch_chunks_total [OF that] obtain css
      where "for_append (element_chunks st self) batch [] = Inr css" by blast
    with c show ?thesis by simp
  qed
  from a b c d show ?thesis by blast
qed

theorem C10_flatten_always_applied_witness:
  "flatten_result (DocumentChunker_init (\<lambda>d. [d]) False 2 True False)
   \<and> docs_list (hd [Docs [''a b c'', ''d''], Doc ''e'']) = [''a b c'', ''d'']
   \<and> DocumentChunker_call (\<lambda>d. [d]) (DocumentChunker_init (\<lambda>d. [d]) False 2 True False)
        [Docs [''a b c'', ''d''], Doc ''e'']
       = Inr [PList [PList [PStr ''a'', PStr ''b''], PList [PStr ''c''], PList [PStr ''d'']],
              PList [PList [PStr ''e'']]]"
  using C10_flatten_always_applied [of "DocumentChunker_init (\<lambda>d. [d]) False 2 True False"
      "[Docs [''a b c'', ''d''], Doc ''e'']" "\<lambda>d. [d]"]
  by (simp add: DocumentChunker_init_def element_chunks_def doc_chunks_def window_chunks_def
        py_range_def py_slice_def isspace_def Let_def upt_conv_Cons)

section \<open>The sentence segmentation function\<close>

lemma doc_chunks_ignores_sentencize_fn:
  "doc_chunks st (DocumentChunker_init f keep limit flatten paras)
     = doc_chunks st (DocumentChunker_init g keep limit flatten paras)"
  by (rule ext) (simp add: doc_chunks_def DocumentChunker_init_def)

text \<open>
  Claim C1 does not hold of the code: \<^verbatim>\<open>__call__\<close> segments with the module-level
  \<^verbatim>\<open>sent_tokenize\<close> and never reads \<^verbatim>\<open>self._sentencize_fn\<close>. The result of a call is
  the same for any two functions given to the constructor, and the sentences
  accumulated are \<^verbatim>\<open>sent_tokenize(doc)\<close>. With a constructor function that returns
  the whole document as one sentence and \<^verbatim>\<open>sent_tokenize\<close> splitting it in two, the
  chunks are the two sentences.
\<close>

theorem C1_sentencize_fn_unused:
  "DocumentChunker_call st (DocumentChunker_init f keep limit flatten paras) batch
     = DocumentChunker_call st (DocumentChunker_init g keep limit flatten paras) batch
   \<and> doc_chunks st (DocumentChunker_init f True limit flatten False) doc
     = Inr (map PStr (keep_loop limit (st doc) [] 0 []))
   \<and> sentencize_fn (DocumentChunker_init (\<lambda>d. [d]) True 1 False False)
        ''Hello world. Bye now.'' = [''Hello world. Bye now.'']
   \<and> DocumentChunker_call (\<lambda>d. [''Hello world.'', ''Bye now.''])
        (DocumentChunker_init (\<lambda>d. [d]) True 1 False False) [Doc ''Hello world. Bye now.'']
     = Inr [PList [PList [PStr ''Hello world.'', PStr ''Bye now.'']]]"
proof -
  have fl: "flatten_result (DocumentChunker_init f keep limit flatten paras)
              = flatten_result (DocumentChunker_init g keep limit flatten paras)"
    by (simp add: DocumentChunker_init_def)
  have a: "DocumentChunker_call st (DocumentChunker_init f keep limit flatten paras) batch
     = DocumentChunker_call st (DocumentChunker_init g keep limit flatten paras) batch"
    unfolding DocumentChunker_call_def chunk_batch_def element_chunks_def fl
      doc_chunks_ignores_sentencize_fn [of st f keep limit flatten paras g] ..
  have b: "doc_chunks st (DocumentChunker_init f True limit flatten False) doc
     = Inr (map PStr (keep_loop limit (st doc) [] 0 []))"
    by (simp add: doc_chunks_def DocumentChunker_init_def sentence_chunks_def)
  have c: "sentencize_fn (DocumentChunker_init (\<lambda>d. [d]) True 1 False False)
        ''Hello world. Bye now.'' = [''Hello world. Bye now.'']"
    by (simp add: DocumentChunker_init_def)
  have d: "DocumentChunker_call (\<lambda>d. [''Hello world.'', ''Bye now.''])
        (DocumentChunker_init (\<lambda>d. [d]) True 1 False False) [Doc ''Hello world. Bye now.'']
     = Inr [PList [PList [PStr ''Hello world.'', PStr ''Bye now.'']]]"
    by (simp add: DocumentChunker_call_def chunk_batch_def element_chunks_def doc_chunks_def
        DocumentChunker_init_def sentence_chunks_def isspace_def)
  from a b c d show ?thesis by blast
qed

end
